theory Spec2Isabelle
  imports Main
begin

section \<open>The DOM environment\<close>

text \<open>
  An \<open>Element\<close> is compared by reference in the source (\<open>Set<Element>\<close>,
  \<open>lastActiveTarget === elem\<close>), so an element is its reference. What the code reads
  from an element (\<open>elem.id\<close>) and what it writes (\<open>elem.setAttribute\<close>) lives in an
  explicit store. An element without an id has \<open>elem.id === ""\<close>.
\<close>

type_synonym elem = nat

record dom =
  document :: "elem list"
  elem_id :: "elem \<Rightarrow> string"
  attrs :: "elem \<Rightarrow> string \<rightharpoonup> string"

text \<open>
  \<open>document.getElementById(id)\<close>: the first element of the document, in tree order,
  whose id is \<open>id\<close>; \<open>null\<close> when there is none. An empty id is no id.
\<close>

definition getElementById :: "dom \<Rightarrow> string \<Rightarrow> elem option" where
  "getElementById d i = (if i = [] then None else find (\<lambda>e. elem_id d e = i) (document d))"

definition setAttribute :: "dom \<Rightarrow> elem \<Rightarrow> string \<Rightarrow> string \<Rightarrow> dom" where
  "setAttribute d e k v = d\<lparr>attrs := (attrs d)(e := (attrs d e)(k \<mapsto> v))\<rparr>"

text \<open>The argument type \<open>string | Element\<close> of \<open>spy\<close> and \<open>unspy\<close>.\<close>

datatype target = Id string | Elem elem

text \<open>\<open>target instanceof Element ? target : document.getElementById(target)\<close>\<close>

definition resolve :: "dom \<Rightarrow> target \<Rightarrow> elem option" where
  "resolve d t = (case t of Elem e \<Rightarrow> Some e | Id i \<Rightarrow> getElementById d i)"

section \<open>Insertion-ordered sets\<close>

text \<open>
  A JavaScript \<open>Set\<close> iterates in insertion order and holds no duplicates: \<open>add\<close> of a
  member changes nothing, \<open>add\<close> of a new value appends it, \<open>delete\<close> removes it.
\<close>

definition set_add :: "'a \<Rightarrow> 'a list \<Rightarrow> 'a list" where
  "set_add x xs = (if x \<in> set xs then xs else xs @ [x])"

definition set_delete :: "'a \<Rightarrow> 'a list \<Rightarrow> 'a list" where
  "set_delete x xs = removeAll x xs"

section \<open>The tracker state\<close>

text \<open>
  What a subscriber reads from the store value when it is notified: the getters
  \<open>targets\<close>, \<open>activeTargets\<close> and \<open>lastActiveTarget\<close> at that moment.
\<close>

record snapshot =
  snap_targets :: "elem list"
  snap_activeTargets :: "elem list"
  snap_lastActiveTarget :: "elem option"

datatype warning =
    NothingToUnspy string
  | MultipleTargets string
  | NothingToSpy target
  | AlreadySpied target
  | CouldNotFind target
  | MustHaveId target

text \<open>
  The closure of \<open>createScrollSpy\<close>. \<open>observer\<close> is \<open>None\<close> when the function returned at
  its early \<open>return\<close> (line 89), before \<open>const reportUpdates\<close> and \<open>const observer\<close> were
  initialised; otherwise it holds the elements the \<open>IntersectionObserver\<close> observes.
  \<open>notified\<close> logs every \<open>update\<close> of the store, \<open>warnings\<close> every \<open>console.warn\<close>.
\<close>

record spy_state =
  targets :: "elem list"
  activeTargets :: "elem list"
  lastActiveTarget :: "elem option"
  observer :: "elem list option"
  notified :: "snapshot list"
  warnings :: "warning list"

text \<open>Reading a \<open>const\<close> that was never initialised throws.\<close>

datatype error = ReferenceError

text \<open>What \<open>spy\<close> returns: \<open>{}\<close> or \<open>{ destroy: () => unspy(elem) }\<close>.\<close>

datatype action_return = NoHandle | Destroy elem

definition createScrollSpy :: "bool \<Rightarrow> spy_state" where
  "createScrollSpy has_observer =
     \<lparr>targets = [], activeTargets = [], lastActiveTarget = None,
      observer = (if has_observer then Some [] else None),
      notified = [], warnings = []\<rparr>"

definition snapshot_of :: "spy_state \<Rightarrow> snapshot" where
  "snapshot_of s =
     \<lparr>snap_targets = targets s, snap_activeTargets = activeTargets s,
      snap_lastActiveTarget = lastActiveTarget s\<rparr>"

definition warn :: "warning \<Rightarrow> spy_state \<Rightarrow> spy_state" where
  "warn w s = s\<lparr>warnings := warnings s @ [w]\<rparr>"

text \<open>\<open>const reportUpdates = () => update((state) => state)\<close>\<close>

definition reportUpdates :: "spy_state \<Rightarrow> (error + unit) \<times> spy_state" where
  "reportUpdates s =
     (case observer s of
        None \<Rightarrow> (Inl ReferenceError, s)
      | Some obs \<Rightarrow> (Inr (), s\<lparr>notified := notified s @ [snapshot_of s]\<rparr>))"

definition setTargetActive :: "elem \<Rightarrow> spy_state \<Rightarrow> spy_state" where
  "setTargetActive t s =
     s\<lparr>activeTargets := set_add t (set_delete t (activeTargets s)),
       lastActiveTarget := Some t\<rparr>"

definition setTargetUnactive :: "elem \<Rightarrow> spy_state \<Rightarrow> spy_state" where
  "setTargetUnactive t s = s\<lparr>activeTargets := set_delete t (activeTargets s)\<rparr>"

text \<open>\<open>isActive\<close> returns \<open>boolean | null\<close>; \<open>None\<close> is \<open>null\<close>.\<close>

definition isActive :: "spy_state \<Rightarrow> elem \<Rightarrow> bool option" where
  "isActive s t =
     (if t \<in> set (activeTargets s) then Some True
      else if t \<notin> set (targets s) then None
      else Some False)"

text \<open>
  The callback given to \<open>new IntersectionObserver\<close>; an entry is
  \<open>(entry.target, entry.isIntersecting)\<close>.
\<close>

definition apply_entry :: "elem \<times> bool \<Rightarrow> spy_state \<Rightarrow> spy_state" where
  "apply_entry entry s =
     (if snd entry then setTargetActive (fst entry) s else setTargetUnactive (fst entry) s)"

fun observer_callback :: "(elem \<times> bool) list \<Rightarrow> spy_state \<Rightarrow> (error + unit) \<times> spy_state" where
  "observer_callback [] s = (Inr (), s)"
| "observer_callback (entry # entries) s =
     (case reportUpdates (apply_entry entry s) of
        (Inl err, s1) \<Rightarrow> (Inl err, s1)
      | (Inr u, s1) \<Rightarrow> observer_callback entries s1)"

text \<open>The elements \<open>unspy\<close> works on: \<open>elems\<close> of the source.\<close>

definition unspy_elems :: "dom \<Rightarrow> target \<Rightarrow> spy_state \<Rightarrow> elem list" where
  "unspy_elems d t s =
     (case t of
        Id i \<Rightarrow> filter (\<lambda>e. elem_id d e = i) (targets s)
      | Elem e \<Rightarrow> [e])"

text \<open>The \<open>for (const elem of elems)\<close> loop of \<open>unspy\<close>.\<close>

fun unspy_loop :: "elem list \<Rightarrow> spy_state \<Rightarrow> (error + unit) \<times> spy_state" where
  "unspy_loop [] s = (Inr (), s)"
| "unspy_loop (e # es) s =
     (case observer s of
        None \<Rightarrow> (Inl ReferenceError, s)
      | Some obs \<Rightarrow>
          (let s1 = s\<lparr>observer := Some (set_delete e obs)\<rparr>;
               s2 = setTargetUnactive e s1;
               s3 = (if lastActiveTarget s2 = Some e then s2\<lparr>lastActiveTarget := None\<rparr> else s2);
               s4 = s3\<lparr>targets := set_delete e (targets s3)\<rparr>
           in unspy_loop es s4))"

definition unspy :: "dom \<Rightarrow> target \<Rightarrow> spy_state \<Rightarrow> (error + unit) \<times> spy_state" where
  "unspy d t s =
     (let elems = unspy_elems d t s in
      case t of
        Id i \<Rightarrow>
          if elems = [] then (Inr (), warn (NothingToUnspy i) s)
          else
            (let s0 = (if length elems > 1 then warn (MultipleTargets i) s else s)
             in case unspy_loop elems s0 of
                  (Inl err, s1) \<Rightarrow> (Inl err, s1)
                | (Inr u, s1) \<Rightarrow> reportUpdates s1)
      | Elem e \<Rightarrow>
          (case unspy_loop elems s of
             (Inl err, s1) \<Rightarrow> (Inl err, s1)
           | (Inr u, s1) \<Rightarrow> reportUpdates s1))"

definition unspyAll :: "spy_state \<Rightarrow> (error + unit) \<times> spy_state" where
  "unspyAll s =
     (case observer s of
        None \<Rightarrow> (Inl ReferenceError, s)
      | Some obs \<Rightarrow>
          reportUpdates
            (s\<lparr>observer := Some [], activeTargets := [], lastActiveTarget := None,
               targets := []\<rparr>))"

definition spy :: "dom \<Rightarrow> target \<Rightarrow> spy_state \<Rightarrow> (error + action_return) \<times> spy_state" where
  "spy d t s =
     (case resolve d t of
        None \<Rightarrow> (Inr NoHandle, warn (NothingToSpy t) s)
      | Some e \<Rightarrow>
          if e \<in> set (targets s) then (Inr NoHandle, warn (AlreadySpied t) s)
          else
            (let s1 = s\<lparr>targets := set_add e (targets s)\<rparr>
             in case observer s1 of
                  None \<Rightarrow> (Inl ReferenceError, s1)
                | Some obs \<Rightarrow>
                    (case reportUpdates (s1\<lparr>observer := Some (set_add e obs)\<rparr>) of
                       (Inl err, s2) \<Rightarrow> (Inl err, s2)
                     | (Inr u, s2) \<Rightarrow> (Inr (Destroy e), s2))))"

text \<open>The body of the handle \<open>{ destroy: () => unspy(elem) }\<close>, for \<open>Destroy e\<close>.\<close>

definition destroy :: "dom \<Rightarrow> elem \<Rightarrow> spy_state \<Rightarrow> (error + unit) \<times> spy_state" where
  "destroy d e s = unspy d (Elem e) s"

section \<open>The section tracker\<close>

text \<open>
  \<open>String.prototype.toUpperCase\<close> on one character. Identifiers are modelled as ASCII
  strings: a character outside \<open>a\<close>..\<open>z\<close> is left as it is.
\<close>

definition toUpperCase :: "char \<Rightarrow> char" where
  "toUpperCase c =
     (case map_of (zip ''abcdefghijklmnopqrstuvwxyz'' ''ABCDEFGHIJKLMNOPQRSTUVWXYZ'') c of
        None \<Rightarrow> c
      | Some u \<Rightarrow> u)"

text \<open>The characters the regular expression \<open>.\<close> does not match.\<close>

definition line_terminator :: "char \<Rightarrow> bool" where
  "line_terminator c = (c = CHR 0x0A \<or> c = CHR 0x0D)"

text \<open>\<open>.replace(/-./g, (m) => " " + m[1].toUpperCase())\<close>\<close>

fun replace_hyphen :: "string \<Rightarrow> string" where
  "replace_hyphen [] = []"
| "replace_hyphen [c] = [c]"
| "replace_hyphen (c # c' # cs) =
     (if c = CHR ''-'' \<and> \<not> line_terminator c'
      then CHR '' '' # toUpperCase c' # replace_hyphen cs
      else c # replace_hyphen (c' # cs))"

text \<open>\<open>.replace(/^(.)/, (m) => m.toUpperCase())\<close>\<close>

fun replace_first :: "string \<Rightarrow> string" where
  "replace_first [] = []"
| "replace_first (c # cs) = (if line_terminator c then c # cs else toUpperCase c # cs)"

definition kebab_to_label :: "string \<Rightarrow> string" where
  "kebab_to_label i = replace_first (replace_hyphen i)"

text \<open>
  \<open>sectionSpy.spy\<close>; \<open>label\<close> is \<open>None\<close> when the argument is \<open>undefined\<close>. The state is
  that of the tracker which \<open>sectionSpy\<close> wraps.
\<close>

definition section_spy ::
  "dom \<Rightarrow> target \<Rightarrow> string option \<Rightarrow> spy_state \<Rightarrow> (error + action_return) \<times> dom \<times> spy_state" where
  "section_spy d t label s =
     (case resolve d t of
        None \<Rightarrow> (Inr NoHandle, d, warn (CouldNotFind t) s)
      | Some e \<Rightarrow>
          if elem_id d e = [] then (Inr NoHandle, d, warn (MustHaveId t) s)
          else
            (let label1 = (case label of None \<Rightarrow> kebab_to_label (elem_id d e) | Some l \<Rightarrow> l)
             in case spy d (Elem e) s of
                  (Inl err, s1) \<Rightarrow> (Inl err, d, s1)
                | (Inr NoHandle, s1) \<Rightarrow> (Inr NoHandle, d, s1)
                | (Inr (Destroy x), s1) \<Rightarrow>
                    (Inr (Destroy x), setAttribute d e ''data-section-label'' label1, s1)))"

text \<open>
  The label as the specification words it: the identifier is a sequence of lowercase
  tokens separated by hyphens; each token is capitalised and the tokens are joined with
  spaces.
\<close>

fun join_with :: "string \<Rightarrow> string list \<Rightarrow> string" where
  "join_with sep [] = []"
| "join_with sep [w] = w"
| "join_with sep (w # w' # ws) = w @ sep @ join_with sep (w' # ws)"

definition capitalize :: "string \<Rightarrow> string" where
  "capitalize w = (case w of [] \<Rightarrow> [] | c # cs \<Rightarrow> toUpperCase c # cs)"

definition lowercase_token :: "string \<Rightarrow> bool" where
  "lowercase_token w = (w \<noteq> [] \<and> list_all (\<lambda>c. c \<in> set ''abcdefghijklmnopqrstuvwxyz'') w)"

definition spec_label :: "string list \<Rightarrow> string" where
  "spec_label ws = join_with '' '' (map capitalize ws)"

section \<open>Histories of the tracker\<close>

text \<open>
  What can happen to a tracker: a call of \<open>spy\<close>, \<open>unspy\<close> or \<open>unspyAll\<close>, or the
  \<open>IntersectionObserver\<close> delivering a batch of entries. Each operation comes with the
  document as it is when the operation runs.
\<close>

datatype op = OpSpy target | OpUnspy target | OpUnspyAll | OpDeliver "(elem \<times> bool) list"

fun step :: "dom \<times> op \<Rightarrow> spy_state \<Rightarrow> spy_state" where
  "step (d, OpSpy t) s = snd (spy d t s)"
| "step (d, OpUnspy t) s = snd (unspy d t s)"
| "step (d, OpUnspyAll) s = snd (unspyAll s)"
| "step (d, OpDeliver entries) s = snd (observer_callback entries s)"

fun run :: "(dom \<times> op) list \<Rightarrow> spy_state \<Rightarrow> spy_state" where
  "run [] s = s"
| "run (o1 # os) s = run os (step o1 s)"

text \<open>An operation that neither registers \<open>x\<close> nor delivers an activation of \<open>x\<close>.\<close>

fun leaves_alone :: "elem \<Rightarrow> dom \<times> op \<Rightarrow> bool" where
  "leaves_alone x (d, OpSpy t) = (resolve d t \<noteq> Some x)"
| "leaves_alone x (d, OpDeliver entries) = ((x, True) \<notin> set entries)"
| "leaves_alone x (d, OpUnspy t) = True"
| "leaves_alone x (d, OpUnspyAll) = True"

text \<open>
  \<open>x\<close> is in none of the three structures and the observer does not watch it: the state
  \<open>unspy(x)\<close> leaves behind.
\<close>

definition forgotten :: "elem \<Rightarrow> spy_state \<Rightarrow> bool" where
  "forgotten x s =
     (x \<notin> set (targets s) \<and> x \<notin> set (activeTargets s) \<and> lastActiveTarget s \<noteq> Some x \<and>
      (case observer s of None \<Rightarrow> False | Some obs \<Rightarrow> x \<notin> set obs))"

text \<open>
  A history in which every activation is delivered for an element that is registered
  when the batch arrives.
\<close>

fun registered_events :: "(dom \<times> op) list \<Rightarrow> spy_state \<Rightarrow> bool" where
  "registered_events [] s = True"
| "registered_events (o1 # os) s =
     ((case snd o1 of
         OpDeliver entries \<Rightarrow>
           list_all (\<lambda>entry. snd entry \<longrightarrow> fst entry \<in> set (targets s)) entries
       | _ \<Rightarrow> True) \<and>
      registered_events os (step o1 s))"

text \<open>The two lists hold no element twice, as the two \<open>Set\<close>s they stand for.\<close>

definition duplicate_free :: "spy_state \<Rightarrow> bool" where
  "duplicate_free s = (distinct (targets s) \<and> distinct (activeTargets s))"

text \<open>A call of the tracker's interface, as opposed to a delivery by the observer.\<close>

fun is_call :: "dom \<times> op \<Rightarrow> bool" where
  "is_call (d, OpDeliver entries) = False"
| "is_call (d, OpSpy t) = True"
| "is_call (d, OpUnspy t) = True"
| "is_call (d, OpUnspyAll) = True"

section \<open>A page to run the tracker on\<close>

text \<open>
  Four elements: \<open>0\<close> with id \<open>intro-section\<close>, \<open>1\<close> and \<open>2\<close> which share the id
  \<open>about\<close>, and \<open>3\<close> without an id.
\<close>

definition page :: dom where
  "page =
     \<lparr>document = [0, 1, 2, 3],
      elem_id = (\<lambda>e. if e = 0 then ''intro-section''
                      else if e = 1 \<or> e = 2 then ''about'' else []),
      attrs = (\<lambda>e. Map.empty)\<rparr>"

text \<open>Element \<open>0\<close> registered on a tracker that has an \<open>IntersectionObserver\<close>.\<close>

definition one_target :: spy_state where
  "one_target = snd (spy page (Elem 0) (createScrollSpy True))"

text \<open>
  Element \<open>0\<close> registered and unregistered, and then an entry for it delivered that the
  observer had queued while it was still observed.
\<close>

definition stale_entry_state :: spy_state where
  "stale_entry_state =
     snd (observer_callback [(0, True)] (snd (unspy page (Elem 0) one_target)))"

text \<open>Element \<open>0\<close> registered, its handle invoked, and element \<open>0\<close> registered again.\<close>

definition registered_again :: spy_state where
  "registered_again = snd (spy page (Elem 0) (snd (destroy page 0 one_target)))"

text \<open>Operations on the page that neither register element \<open>0\<close> nor activate it.\<close>

definition other_operations :: "(dom \<times> op) list" where
  "other_operations =
     [(page, OpSpy (Id ''about'')),
      (page, OpDeliver [(1, True), (0, False)]),
      (page, OpSpy (Elem 2)),
      (page, OpUnspy (Elem 0))]"

text \<open>
  Element \<open>0\<close> after \<open>spy\<close> on a tracker without an \<open>IntersectionObserver\<close>: the call
  has thrown, and the element is registered.
\<close>

definition unobserved_target :: spy_state where
  "unobserved_target = snd (spy page (Elem 0) (createScrollSpy False))"

text \<open>Elements \<open>1\<close> and \<open>2\<close> registered, \<open>1\<close> and then \<open>2\<close> activated.\<close>

definition two_active :: spy_state where
  "two_active =
     run [(page, OpSpy (Elem 1)), (page, OpSpy (Elem 2)), (page, OpDeliver [(1, True), (2, True)])]
       (createScrollSpy True)"

section \<open>Ordered sets and the store\<close>

lemma set_delete_set [simp]: "set (set_delete x xs) = set xs - {x}"
  by (simp add: set_delete_def)

lemma set_add_set [simp]: "set (set_add x xs) = insert x (set xs)"
  by (auto simp: set_add_def)

lemma set_add_delete: "set_add x (set_delete x xs) = removeAll x xs @ [x]"
  by (simp add: set_add_def set_delete_def)

lemma set_delete_absent: "x \<notin> set xs \<Longrightarrow> set_delete x xs = xs"
  by (simp add: set_delete_def)

lemma reportUpdates_Some:
  "observer s = Some obs \<Longrightarrow>
   reportUpdates s = (Inr (), s\<lparr>notified := notified s @ [snapshot_of s]\<rparr>)"
  by (simp add: reportUpdates_def)

lemmas run_defs =
  createScrollSpy_def spy_def unspy_def unspyAll_def unspy_elems_def resolve_def
  getElementById_def reportUpdates_def snapshot_of_def warn_def set_add_def set_delete_def
  setTargetActive_def setTargetUnactive_def apply_entry_def isActive_def destroy_def page_def
  observer_callback.simps(2) Let_def

section \<open>The loop of unspy\<close>

text \<open>
  With an observer, the loop never throws, and removes the elements from the observer,
  the active set and the registration set; the last-active pointer is cleared when it
  points to one of them.
\<close>

lemma unspy_loop_closed:
  "observer s = Some obs \<Longrightarrow>
   unspy_loop es s =
     (Inr (),
      s\<lparr>observer := Some (filter (\<lambda>y. y \<notin> set es) obs),
        activeTargets := filter (\<lambda>y. y \<notin> set es) (activeTargets s),
        lastActiveTarget :=
          (if lastActiveTarget s \<in> Some ` set es then None else lastActiveTarget s),
        targets := filter (\<lambda>y. y \<notin> set es) (targets s)\<rparr>)"
proof (induction es arbitrary: s obs)
  case Nil
  then show ?case by simp
next
  case (Cons e es)
  let ?s4 = "s\<lparr>observer := Some (set_delete e obs),
        activeTargets := set_delete e (activeTargets s),
        lastActiveTarget := (if lastActiveTarget s = Some e then None else lastActiveTarget s),
        targets := set_delete e (targets s)\<rparr>"
  have unfold_once: "unspy_loop (e # es) s = unspy_loop es ?s4"
    using Cons.prems by (simp add: setTargetUnactive_def Let_def)
  have obs4: "observer ?s4 = Some (set_delete e obs)" by simp
  have both: "filter (\<lambda>y. y \<notin> set es) (set_delete e xs) = filter (\<lambda>y. y \<noteq> e \<and> y \<notin> set es) xs"
    for xs
    by (induction xs) (auto simp: set_delete_def)
  show ?case
    unfolding unfold_once Cons.IH[OF obs4]
    by (auto simp: both)
qed

section \<open>The observer's callback\<close>

lemma apply_entry_frame:
  "targets (apply_entry entry s) = targets s"
  "observer (apply_entry entry s) = observer s"
  "notified (apply_entry entry s) = notified s"
  "warnings (apply_entry entry s) = warnings s"
  by (simp_all add: apply_entry_def setTargetActive_def setTargetUnactive_def)

lemma apply_entry_active:
  "activeTargets (apply_entry (x, b) s) =
     (if b then removeAll x (activeTargets s) @ [x] else removeAll x (activeTargets s))"
  by (simp add: apply_entry_def setTargetActive_def setTargetUnactive_def set_add_def
      set_delete_def)

lemma apply_entry_last:
  "lastActiveTarget (apply_entry (x, b) s) = (if b then Some x else lastActiveTarget s)"
  by (simp add: apply_entry_def setTargetActive_def setTargetUnactive_def)

lemma observer_callback_Cons:
  "observer_callback (entry # entries) s =
     (case observer s of
        None \<Rightarrow> (Inl ReferenceError, apply_entry entry s)
      | Some obs \<Rightarrow>
          observer_callback entries
            ((apply_entry entry s)
               \<lparr>notified := notified s @ [snapshot_of (apply_entry entry s)]\<rparr>))"
  by (simp add: reportUpdates_def apply_entry_frame split: option.splits)

declare observer_callback.simps(2) [simp del]

lemma observer_callback_targets:
  "targets (snd (observer_callback entries s)) = targets s"
proof (induction entries arbitrary: s)
  case Nil
  then show ?case by simp
next
  case (Cons entry entries)
  show ?case
    unfolding observer_callback_Cons
    by (simp add: Cons.IH apply_entry_frame split: option.splits)
qed

lemma observer_callback_observer:
  "observer (snd (observer_callback entries s)) = observer s"
proof (induction entries arbitrary: s)
  case Nil
  then show ?case by simp
next
  case (Cons entry entries)
  show ?case
    unfolding observer_callback_Cons
    by (simp add: Cons.IH apply_entry_frame split: option.splits)
qed

lemma observer_callback_active_subset:
  "set (activeTargets (snd (observer_callback entries s)))
     \<subseteq> set (activeTargets s) \<union> {x. (x, True) \<in> set entries}"
proof (induction entries arbitrary: s)
  case Nil
  then show ?case by simp
next
  case (Cons entry entries)
  obtain x b where entry: "entry = (x, b)" by (cases entry)
  let ?s1 = "apply_entry entry s"
  let ?s2 = "?s1\<lparr>notified := notified s @ [snapshot_of ?s1]\<rparr>"
  have first: "set (activeTargets ?s1) \<subseteq> set (activeTargets s) \<union> {y. (y, True) \<in> set (entry # entries)}"
    by (auto simp: entry apply_entry_active)
  have rest: "set (activeTargets (snd (observer_callback entries ?s2)))
        \<subseteq> set (activeTargets ?s2) \<union> {y. (y, True) \<in> set entries}"
    by (rule Cons.IH)
  have same: "activeTargets ?s2 = activeTargets ?s1" by simp
  show ?case
  proof (cases "observer s")
    case None
    then show ?thesis using first unfolding observer_callback_Cons by simp
  next
    case (Some obs)
    then have "observer_callback (entry # entries) s = observer_callback entries ?s2"
      unfolding observer_callback_Cons by simp
    then show ?thesis using first rest same by auto
  qed
qed

lemma observer_callback_last_other:
  "(x, True) \<notin> set entries \<Longrightarrow> lastActiveTarget s \<noteq> Some x \<Longrightarrow>
   lastActiveTarget (snd (observer_callback entries s)) \<noteq> Some x"
proof (induction entries arbitrary: s)
  case Nil
  then show ?case by simp
next
  case (Cons entry entries)
  obtain y b where entry: "entry = (y, b)" by (cases entry)
  let ?s1 = "apply_entry entry s"
  let ?s2 = "?s1\<lparr>notified := notified s @ [snapshot_of ?s1]\<rparr>"
  have l1: "lastActiveTarget ?s1 \<noteq> Some x"
    using Cons.prems by (auto simp: entry apply_entry_last)
  have rest: "lastActiveTarget (snd (observer_callback entries ?s2)) \<noteq> Some x"
    using Cons.prems l1 by (intro Cons.IH) auto
  show ?case
  proof (cases "observer s")
    case None
    then show ?thesis using l1 unfolding observer_callback_Cons by simp
  next
    case (Some obs)
    then show ?thesis using rest unfolding observer_callback_Cons by simp
  qed
qed

section \<open>What unspy does\<close>

text \<open>
  With an observer and at least one element to work on, \<open>unspy\<close> returns normally; each
  structure loses exactly those elements, and the store is updated once, at the end.
\<close>

lemma unspy_closed:
  assumes "observer s = Some obs" and "unspy_elems d t s \<noteq> []"
  shows "fst (unspy d t s) = Inr ()"
    and "observer (snd (unspy d t s)) = Some (filter (\<lambda>y. y \<notin> set (unspy_elems d t s)) obs)"
    and "activeTargets (snd (unspy d t s)) = filter (\<lambda>y. y \<notin> set (unspy_elems d t s)) (activeTargets s)"
    and "targets (snd (unspy d t s)) = filter (\<lambda>y. y \<notin> set (unspy_elems d t s)) (targets s)"
    and "lastActiveTarget (snd (unspy d t s)) =
          (if lastActiveTarget s \<in> Some ` set (unspy_elems d t s) then None
           else lastActiveTarget s)"
    and "notified (snd (unspy d t s)) = notified s @ [snapshot_of (snd (unspy d t s))]"
proof -
  define s0 where "s0 = (case t of
      Id i \<Rightarrow> if length (unspy_elems d t s) > 1 then warn (MultipleTargets i) s else s
    | Elem e \<Rightarrow> s)"
  have o0: "observer s0 = Some obs"
    using assms(1) by (simp add: s0_def warn_def split: target.splits)
  have same: "activeTargets s0 = activeTargets s" "targets s0 = targets s"
    "lastActiveTarget s0 = lastActiveTarget s" "notified s0 = notified s"
    by (simp_all add: s0_def warn_def split: target.splits)
  obtain s1 where loop: "unspy_loop (unspy_elems d t s) s0 = (Inr (), s1)"
    and s1: "s1 = s0\<lparr>observer := Some (filter (\<lambda>y. y \<notin> set (unspy_elems d t s)) obs),
        activeTargets := filter (\<lambda>y. y \<notin> set (unspy_elems d t s)) (activeTargets s0),
        lastActiveTarget :=
          (if lastActiveTarget s0 \<in> Some ` set (unspy_elems d t s) then None else lastActiveTarget s0),
        targets := filter (\<lambda>y. y \<notin> set (unspy_elems d t s)) (targets s0)\<rparr>"
    using unspy_loop_closed[OF o0] by blast
  have o1: "observer s1 = Some (filter (\<lambda>y. y \<notin> set (unspy_elems d t s)) obs)"
    by (simp add: s1)
  have u: "unspy d t s = reportUpdates s1"
  proof (cases t)
    case (Id i)
    then show ?thesis using assms(2) loop by (simp add: unspy_def Let_def s0_def)
  next
    case (Elem e)
    then show ?thesis using assms(2) loop by (simp add: unspy_def Let_def s0_def)
  qed
  have r: "reportUpdates s1 = (Inr (), s1\<lparr>notified := notified s1 @ [snapshot_of s1]\<rparr>)"
    using o1 by (rule reportUpdates_Some)
  have fields: "activeTargets s1 = filter (\<lambda>y. y \<notin> set (unspy_elems d t s)) (activeTargets s)"
    "targets s1 = filter (\<lambda>y. y \<notin> set (unspy_elems d t s)) (targets s)"
    "lastActiveTarget s1 =
       (if lastActiveTarget s \<in> Some ` set (unspy_elems d t s) then None else lastActiveTarget s)"
    "notified s1 = notified s"
    by (simp_all add: s1 same)
  have final: "unspy d t s = (Inr (), s1\<lparr>notified := notified s1 @ [snapshot_of s1]\<rparr>)"
    by (simp only: u r)
  show "fst (unspy d t s) = Inr ()" by (simp add: final)
  show "observer (snd (unspy d t s)) = Some (filter (\<lambda>y. y \<notin> set (unspy_elems d t s)) obs)"
    by (simp add: final o1)
  show "activeTargets (snd (unspy d t s)) = filter (\<lambda>y. y \<notin> set (unspy_elems d t s)) (activeTargets s)"
    by (simp add: final fields)
  show "targets (snd (unspy d t s)) = filter (\<lambda>y. y \<notin> set (unspy_elems d t s)) (targets s)"
    by (simp add: final fields)
  show "lastActiveTarget (snd (unspy d t s)) =
          (if lastActiveTarget s \<in> Some ` set (unspy_elems d t s) then None
           else lastActiveTarget s)"
    by (simp add: final fields)
  show "notified (snd (unspy d t s)) = notified s @ [snapshot_of (snd (unspy d t s))]"
    by (simp add: final fields snapshot_of_def)
qed

lemma unspy_no_match:
  "unspy_elems d t s = [] \<Longrightarrow> \<exists>i. t = Id i \<and> unspy d t s = (Inr (), warn (NothingToUnspy i) s)"
  by (cases t) (simp_all add: unspy_def unspy_elems_def)

lemma unspy_fallback:
  "observer s = None \<Longrightarrow> unspy_elems d t s \<noteq> [] \<Longrightarrow> fst (unspy d t s) = Inl ReferenceError \<and>
    targets (snd (unspy d t s)) = targets s \<and> activeTargets (snd (unspy d t s)) = activeTargets s
    \<and> lastActiveTarget (snd (unspy d t s)) = lastActiveTarget s \<and> observer (snd (unspy d t s)) = None"
  by (cases t; cases "unspy_elems d t s") (simp_all add: unspy_def Let_def warn_def)

section \<open>What spy and unspyAll do\<close>

lemma spy_rejected:
  "resolve d t = None \<or> (\<exists>e. resolve d t = Some e \<and> e \<in> set (targets s)) \<Longrightarrow>
   fst (spy d t s) = Inr NoHandle \<and> targets (snd (spy d t s)) = targets s \<and>
   activeTargets (snd (spy d t s)) = activeTargets s \<and>
   lastActiveTarget (snd (spy d t s)) = lastActiveTarget s \<and>
   observer (snd (spy d t s)) = observer s \<and> notified (snd (spy d t s)) = notified s"
  by (auto simp: spy_def warn_def)

lemma spy_accepted:
  assumes "resolve d t = Some e" and "e \<notin> set (targets s)" and "observer s = Some obs"
  shows "spy d t s =
     (Inr (Destroy e),
      s\<lparr>targets := targets s @ [e], observer := Some (set_add e obs),
        notified := notified s @ [snapshot_of (s\<lparr>targets := targets s @ [e]\<rparr>)]\<rparr>)"
  using assms by (simp add: spy_def Let_def reportUpdates_def set_add_def snapshot_of_def)

lemma spy_frame:
  "activeTargets (snd (spy d t s)) = activeTargets s"
  "lastActiveTarget (snd (spy d t s)) = lastActiveTarget s"
  "set (targets s) \<subseteq> set (targets (snd (spy d t s)))"
  "set (targets (snd (spy d t s))) \<subseteq> set (targets s) \<union> set_option (resolve d t)"
  by (auto simp: spy_def Let_def reportUpdates_def warn_def split: option.splits)

lemma spy_observer:
  "observer s = Some obs \<Longrightarrow>
   \<exists>obs'. observer (snd (spy d t s)) = Some obs' \<and> set obs' \<subseteq> set obs \<union> set_option (resolve d t)"
  by (auto simp: spy_def Let_def reportUpdates_def warn_def split: option.splits)

lemma unspyAll_Some:
  "observer s = Some obs \<Longrightarrow>
   unspyAll s =
     (Inr (),
      s\<lparr>observer := Some [], activeTargets := [], lastActiveTarget := None, targets := [],
        notified := notified s @
          [\<lparr>snap_targets = [], snap_activeTargets = [], snap_lastActiveTarget = None\<rparr>]\<rparr>)"
  by (simp add: unspyAll_def reportUpdates_def snapshot_of_def)

section \<open>An element the tracker has forgotten\<close>

text \<open>
  \<open>unspy(x)\<close> leaves \<open>x\<close> forgotten; \<open>x\<close> stays forgotten until it is registered again
  or an activation of it is delivered; and on a forgotten \<open>x\<close>, \<open>unspy(x)\<close> only updates
  the store.
\<close>

lemma forgotten_observer: "forgotten x s \<Longrightarrow> \<exists>obs. observer s = Some obs \<and> x \<notin> set obs"
  by (auto simp: forgotten_def split: option.splits)

lemma forgotten_after_unspy:
  assumes "observer s = Some obs"
  shows "forgotten x (snd (unspy d (Elem x) s))"
proof -
  have e: "unspy_elems d (Elem x) s = [x]" by (simp add: unspy_elems_def)
  then have ne: "unspy_elems d (Elem x) s \<noteq> []" by simp
  show ?thesis
    unfolding forgotten_def
    by (simp add: unspy_closed(2-5)[OF assms ne] e)
qed

lemma unspy_preserves_forgotten:
  assumes "forgotten x s"
  shows "forgotten x (snd (unspy d t s))"
proof -
  obtain obs where obs: "observer s = Some obs" "x \<notin> set obs"
    using forgotten_observer[OF assms] by blast
  show ?thesis
  proof (cases "unspy_elems d t s = []")
    case True
    then obtain i where "unspy d t s = (Inr (), warn (NothingToUnspy i) s)"
      using unspy_no_match by blast
    then show ?thesis using assms by (simp add: forgotten_def warn_def)
  next
    case False
    show ?thesis
      using assms obs unfolding forgotten_def
      by (auto simp: unspy_closed(2-5)[OF obs(1) False])
  qed
qed

lemma spy_preserves_forgotten:
  assumes "forgotten x s" and "resolve d t \<noteq> Some x"
  shows "forgotten x (snd (spy d t s))"
proof -
  obtain obs where obs: "observer s = Some obs" "x \<notin> set obs"
    using forgotten_observer[OF assms(1)] by blast
  obtain obs' where obs': "observer (snd (spy d t s)) = Some obs'"
    "set obs' \<subseteq> set obs \<union> set_option (resolve d t)"
    using spy_observer[OF obs(1)] by blast
  have "x \<notin> set_option (resolve d t)"
    using assms(2) by (cases "resolve d t") auto
  then have "x \<notin> set obs'" using obs'(2) obs(2) by auto
  moreover have "x \<notin> set (targets (snd (spy d t s)))"
    using spy_frame(4)[of d t s] assms by (auto simp: forgotten_def)
  ultimately show ?thesis
    using assms(1) obs' by (simp add: forgotten_def spy_frame)
qed

lemma unspyAll_preserves_forgotten:
  "forgotten x s \<Longrightarrow> forgotten x (snd (unspyAll s))"
  by (auto simp: forgotten_def unspyAll_Some split: option.splits)

lemma deliver_preserves_forgotten:
  assumes "forgotten x s" and "(x, True) \<notin> set entries"
  shows "forgotten x (snd (observer_callback entries s))"
proof -
  have "x \<notin> set (activeTargets (snd (observer_callback entries s)))"
    using observer_callback_active_subset[of entries s] assms by (auto simp: forgotten_def)
  moreover have "lastActiveTarget (snd (observer_callback entries s)) \<noteq> Some x"
    using assms by (intro observer_callback_last_other) (auto simp: forgotten_def)
  ultimately show ?thesis
    using assms(1) by (simp add: forgotten_def observer_callback_targets observer_callback_observer)
qed

lemma step_preserves_forgotten:
  "forgotten x s \<Longrightarrow> leaves_alone x o1 \<Longrightarrow> forgotten x (step o1 s)"
proof (cases o1)
  case (Pair d a)
  assume "forgotten x s" "leaves_alone x o1"
  then show ?thesis
    using Pair
    by (cases a)
      (simp_all add: spy_preserves_forgotten unspy_preserves_forgotten
        unspyAll_preserves_forgotten deliver_preserves_forgotten)
qed

lemma run_preserves_forgotten:
  "forgotten x s \<Longrightarrow> list_all (leaves_alone x) ops \<Longrightarrow> forgotten x (run ops s)"
  by (induction ops arbitrary: s) (simp_all add: step_preserves_forgotten)

lemma unspy_forgotten:
  assumes "forgotten x s"
  shows "unspy d (Elem x) s = (Inr (), s\<lparr>notified := notified s @ [snapshot_of s]\<rparr>)"
proof -
  obtain obs where obs: "observer s = Some obs" "x \<notin> set obs"
    using forgotten_observer[OF assms] by blast
  have e: "unspy_elems d (Elem x) s = [x]" by (simp add: unspy_elems_def)
  have keep: "filter (\<lambda>y. y \<noteq> x) xs = xs" if "x \<notin> set xs" for xs
    using that by (induction xs) auto
  have "unspy_loop [x] s = (Inr (), s)"
    using assms obs unspy_loop_closed[OF obs(1), of "[x]"]
    by (simp add: forgotten_def keep)
  then show ?thesis
    using obs by (simp add: unspy_def e reportUpdates_def)
qed

section \<open>The lists stay sets\<close>

text \<open>
  No operation puts an element twice into the registration set or the active set, so
  \<open>removeAll\<close> on the lists is \<open>Set.delete\<close>.
\<close>

lemma distinct_set_add: "distinct xs \<Longrightarrow> distinct (set_add x xs)"
  by (simp add: set_add_def)

lemma distinct_set_delete: "distinct xs \<Longrightarrow> distinct (set_delete x xs)"
  by (simp add: set_delete_def distinct_removeAll)

lemma apply_entry_distinct:
  "duplicate_free s \<Longrightarrow> duplicate_free (apply_entry entry s)"
  by (cases entry)
    (auto simp: duplicate_free_def apply_entry_frame apply_entry_active distinct_removeAll)

lemma deliver_distinct:
  "duplicate_free s \<Longrightarrow> duplicate_free (snd (observer_callback entries s))"
proof (induction entries arbitrary: s)
  case Nil
  then show ?case by simp
next
  case (Cons entry entries)
  let ?s1 = "apply_entry entry s"
  have d1: "duplicate_free ?s1" using Cons.prems by (rule apply_entry_distinct)
  then have d2: "duplicate_free (?s1\<lparr>notified := notified s @ [snapshot_of ?s1]\<rparr>)"
    by (simp add: duplicate_free_def)
  show ?case
    unfolding observer_callback_Cons
    using d1 Cons.IH[OF d2] by (simp split: option.splits)
qed

lemma spy_distinct: "duplicate_free s \<Longrightarrow> duplicate_free (snd (spy d t s))"
  by (auto simp: duplicate_free_def spy_def Let_def warn_def reportUpdates_def set_add_def
      split: option.splits)

lemma unspy_distinct:
  assumes "duplicate_free s"
  shows "duplicate_free (snd (unspy d t s))"
proof (cases "unspy_elems d t s = []")
  case True
  then obtain i where "unspy d t s = (Inr (), warn (NothingToUnspy i) s)"
    using unspy_no_match by blast
  then show ?thesis using assms by (simp add: warn_def duplicate_free_def)
next
  case False
  show ?thesis
  proof (cases "observer s")
    case None
    then show ?thesis using unspy_fallback[OF None False] assms by (simp add: duplicate_free_def)
  next
    case (Some obs)
    show ?thesis using assms by (simp add: duplicate_free_def unspy_closed(3,4)[OF Some False])
  qed
qed

lemma unspyAll_distinct: "duplicate_free s \<Longrightarrow> duplicate_free (snd (unspyAll s))"
  by (cases "observer s") (simp_all add: duplicate_free_def unspyAll_def reportUpdates_def)

lemma run_distinct: "duplicate_free s \<Longrightarrow> duplicate_free (run ops s)"
proof (induction ops arbitrary: s)
  case Nil
  then show ?case by simp
next
  case (Cons o1 ops)
  obtain d a where o1: "o1 = (d, a)" by (cases o1)
  have "duplicate_free (step o1 s)"
    using Cons.prems unfolding o1
    by (cases a) (simp_all add: spy_distinct unspy_distinct unspyAll_distinct deliver_distinct)
  then show ?case by (simp add: Cons.IH)
qed

lemma created_distinct: "duplicate_free (run ops (createScrollSpy b))"
  by (rule run_distinct) (simp add: duplicate_free_def createScrollSpy_def)

section \<open>Without an IntersectionObserver\<close>

text \<open>
  Without an observer nothing is delivered, and no call makes an element active:
  \<open>isActive\<close> never answers \<open>true\<close>.
\<close>

lemma spy_fallback_observer: "observer s = None \<Longrightarrow> observer (snd (spy d t s)) = None"
  by (auto simp: spy_def Let_def warn_def split: option.splits)

lemma unspy_fallback_frame:
  assumes "observer s = None"
  shows "observer (snd (unspy d t s)) = None \<and> activeTargets (snd (unspy d t s)) = activeTargets s"
proof (cases "unspy_elems d t s = []")
  case True
  then obtain i where "unspy d t s = (Inr (), warn (NothingToUnspy i) s)"
    using unspy_no_match by blast
  then show ?thesis using assms by (simp add: warn_def)
next
  case False
  then show ?thesis using unspy_fallback[OF assms False] by simp
qed

lemma fallback_step:
  assumes "observer s = None" and "is_call o1"
  shows "observer (step o1 s) = None \<and> activeTargets (step o1 s) = activeTargets s"
proof -
  obtain d a where o1: "o1 = (d, a)" by (cases o1)
  show ?thesis
    using assms unfolding o1
    by (cases a)
      (simp_all add: spy_fallback_observer spy_frame(1) unspy_fallback_frame unspyAll_def)
qed

lemma fallback_never_active:
  assumes "list_all is_call ops"
  shows "activeTargets (run ops (createScrollSpy False)) = [] \<and>
         isActive (run ops (createScrollSpy False)) x \<noteq> Some True"
proof -
  have "observer (run ops s) = None \<and> activeTargets (run ops s) = activeTargets s"
    if "observer s = None" for s
    using that assms
  proof (induction ops arbitrary: s)
    case Nil
    then show ?case by simp
  next
    case (Cons o1 ops)
    then show ?case using fallback_step[of s o1] by simp
  qed
  from this[of "createScrollSpy False"] show ?thesis
    by (simp add: createScrollSpy_def isActive_def)
qed

text \<open>
  C1. When \<open>IntersectionObserver\<close> is undefined, \<open>createScrollSpy\<close> returns \<open>spy\<close>,
  \<open>unspy\<close> and \<open>unspyAll\<close> before \<open>observer\<close> is initialised. The claim is that none of
  them throws. Registering any element throws, after the element was added to the
  registration set; unregistering an element and \<open>unspyAll\<close> throw as well. No element
  is ever active.
\<close>

theorem fallback_operations_throw:
  "fst (spy d (Elem e) (createScrollSpy False)) = Inl ReferenceError \<and>
   targets (snd (spy d (Elem e) (createScrollSpy False))) = [e] \<and>
   fst (unspy d (Elem e) (createScrollSpy False)) = Inl ReferenceError \<and>
   fst (unspyAll (createScrollSpy False)) = Inl ReferenceError \<and>
   isActive (snd (spy d (Elem e) (createScrollSpy False))) e = Some False"
  by (simp add: createScrollSpy_def spy_def unspy_def unspyAll_def unspy_elems_def
      resolve_def set_add_def isActive_def)

section \<open>The handle that spy returns\<close>

text \<open>
  C3, as stated: the handle unregisters its element exactly once, and a later
  invocation is a no-op in any interleaving with other operations. The handle is
  \<open>() => unspy(elem)\<close> and keeps no record of having run: when element \<open>0\<close> has been
  registered again in between, the second invocation unregisters it again.
\<close>

theorem destroy_after_reregistration_counterexample:
  "targets registered_again = [0] \<and> targets (snd (destroy page 0 registered_again)) = []"
  by (simp add: registered_again_def one_target_def run_defs)

text \<open>
  C3, amended. On a tracker with an observer, the first invocation of the handle
  of \<open>x\<close> returns normally and removes \<open>x\<close> from the registration set. After any
  operations that neither register \<open>x\<close> again nor deliver an activation of \<open>x\<close>, a
  further invocation returns normally and leaves the registration set, the active set,
  the last-active pointer and the observer as they are; it updates the store once more.
\<close>

theorem destroy_twice:
  assumes "observer s \<noteq> None" and "list_all (leaves_alone x) ops"
  shows "fst (destroy d x s) = Inr () \<and>
         targets (snd (destroy d x s)) = removeAll x (targets s) \<and>
         fst (destroy d' x (run ops (snd (destroy d x s)))) = Inr () \<and>
         snd (destroy d' x (run ops (snd (destroy d x s)))) =
           (run ops (snd (destroy d x s)))
             \<lparr>notified := notified (run ops (snd (destroy d x s))) @
                [snapshot_of (run ops (snd (destroy d x s)))]\<rparr>"
proof -
  obtain obs where obs: "observer s = Some obs" using assms(1) by auto
  have e: "unspy_elems d (Elem x) s = [x]" by (simp add: unspy_elems_def)
  then have ne: "unspy_elems d (Elem x) s \<noteq> []" by simp
  have first: "fst (destroy d x s) = Inr ()"
    unfolding destroy_def by (rule unspy_closed(1)[OF obs ne])
  have removed: "targets (snd (destroy d x s)) = removeAll x (targets s)"
    unfolding destroy_def
    by (simp add: unspy_closed(4)[OF obs ne] e removeAll_filter_not_eq) (metis)
  have "forgotten x (snd (destroy d x s))"
    unfolding destroy_def by (rule forgotten_after_unspy[OF obs])
  then have "forgotten x (run ops (snd (destroy d x s)))"
    using assms(2) by (rule run_preserves_forgotten)
  then have again: "destroy d' x (run ops (snd (destroy d x s))) =
      (Inr (), (run ops (snd (destroy d x s)))
             \<lparr>notified := notified (run ops (snd (destroy d x s))) @
                [snapshot_of (run ops (snd (destroy d x s)))]\<rparr>)"
    unfolding destroy_def by (rule unspy_forgotten)
  show ?thesis using first removed again by simp
qed

theorem destroy_twice_witness:
  "observer one_target \<noteq> None \<and> list_all (leaves_alone 0) other_operations \<and>
   targets (run other_operations (snd (destroy page 0 one_target))) = [1, 2] \<and>
   snd (destroy page 0 (run other_operations (snd (destroy page 0 one_target)))) =
     (run other_operations (snd (destroy page 0 one_target)))
       \<lparr>notified := notified (run other_operations (snd (destroy page 0 one_target))) @
          [snapshot_of (run other_operations (snd (destroy page 0 one_target)))]\<rparr>"
proof -
  have h1: "observer one_target \<noteq> None"
    by (simp add: one_target_def run_defs)
  have h2: "list_all (leaves_alone 0) other_operations"
    by (simp add: other_operations_def run_defs)
  have t: "targets (run other_operations (snd (destroy page 0 one_target))) = [1, 2]"
    by (simp add: other_operations_def one_target_def run_defs)
  show ?thesis
    using destroy_twice [OF h1 h2, of page page] h1 h2 t by simp
qed

section \<open>Notifications of unspy\<close>

text \<open>
  C8, as stated: every call of \<open>unspy\<close> updates the store exactly once, also when the
  identifier matches no registered element. In that case \<open>unspy\<close> warns and returns
  before \<open>reportUpdates()\<close>: the store is not updated.
\<close>

theorem unspy_no_match_counterexample:
  "unspy_elems page (Id ''contact'') one_target = [] \<and>
   fst (unspy page (Id ''contact'') one_target) = Inr () \<and>
   notified (snd (unspy page (Id ''contact'') one_target)) = notified one_target"
  by (simp add: one_target_def run_defs)

text \<open>
  C8, amended. On a tracker with an observer, a call of \<open>unspy\<close> that has at least one
  element to work on (an identifier with one or more matches, or an element, registered
  or not) updates the store exactly once, with the snapshot of the state after all its
  elements were processed. A call with an identifier that matches nothing updates the
  store not at all.
\<close>

theorem unspy_notifies_once:
  assumes "observer s \<noteq> None"
  shows "(unspy_elems d t s \<noteq> [] \<longrightarrow>
           fst (unspy d t s) = Inr () \<and>
           notified (snd (unspy d t s)) = notified s @ [snapshot_of (snd (unspy d t s))]) \<and>
         (unspy_elems d t s = [] \<longrightarrow>
           fst (unspy d t s) = Inr () \<and> notified (snd (unspy d t s)) = notified s) \<and>
         unspy_elems d (Elem e) s \<noteq> []"
proof -
  obtain obs where obs: "observer s = Some obs" using assms by auto
  have some: "fst (unspy d t s) = Inr () \<and>
      notified (snd (unspy d t s)) = notified s @ [snapshot_of (snd (unspy d t s))]"
    if "unspy_elems d t s \<noteq> []"
    using unspy_closed(1)[OF obs that] unspy_closed(6)[OF obs that] by simp
  have none: "fst (unspy d t s) = Inr () \<and> notified (snd (unspy d t s)) = notified s"
    if "unspy_elems d t s = []"
    using unspy_no_match[OF that] by (auto simp: warn_def)
  show ?thesis using some none by (simp add: unspy_elems_def)
qed

theorem unspy_notifies_once_witness:
  "observer two_active \<noteq> None \<and>
   unspy_elems page (Id ''about'') two_active = [1, 2] \<and>
   notified (snd (unspy page (Id ''about'') two_active)) =
     notified two_active @
       [\<lparr>snap_targets = [], snap_activeTargets = [], snap_lastActiveTarget = None\<rparr>] \<and>
   unspy_elems page (Id ''contact'') two_active = [] \<and>
   notified (snd (unspy page (Id ''contact'') two_active)) = notified two_active"
proof -
  have h: "observer two_active \<noteq> None"
    by (simp add: two_active_def run_defs)
  have e: "unspy_elems page (Id ''about'') two_active = [1, 2]"
    by (simp add: two_active_def run_defs)
  have e': "unspy_elems page (Id ''contact'') two_active = []"
    by (simp add: two_active_def run_defs)
  have after: "snapshot_of (snd (unspy page (Id ''about'') two_active)) =
      \<lparr>snap_targets = [], snap_activeTargets = [], snap_lastActiveTarget = None\<rparr>"
    by (simp add: two_active_def run_defs)
  show ?thesis
    using unspy_notifies_once [OF h, of page "Id ''about''"]
      unspy_notifies_once [OF h, of page "Id ''contact''"] h e e' after
    by simp
qed

section \<open>Activation\<close>

lemma deliver_one:
  "observer s = Some obs \<Longrightarrow>
   observer_callback (entry # entries) s =
     observer_callback entries
       ((apply_entry entry s)\<lparr>notified := notified s @ [snapshot_of (apply_entry entry s)]\<rparr>)"
  unfolding observer_callback_Cons by simp

lemma removeAll_swap: "removeAll a (removeAll b xs) = removeAll b (removeAll a xs)"
  by (induction xs) auto

text \<open>
  C4. On a tracker with an observer and for two different elements \<open>a\<close> and \<open>b\<close>,
  registered or not: an activation of \<open>a\<close> and then one of \<open>b\<close> put \<open>a, b\<close> at the end of
  the active set, in this order, behind the other active elements; a further activation
  of \<open>a\<close> turns the end into \<open>b, a\<close>. From an empty active set the results are \<open>[a, b]\<close>
  and \<open>[b, a]\<close>. Every activation, of any element and in any state, is remove-then-append
  and sets the last-active pointer to the element.
\<close>

theorem activation_order:
  assumes "observer s \<noteq> None" and "a \<noteq> b"
  shows "activeTargets (snd (observer_callback [(a, True), (b, True)] s)) =
           removeAll b (removeAll a (activeTargets s)) @ [a, b] \<and>
         activeTargets (snd (observer_callback [(a, True)]
             (snd (observer_callback [(a, True), (b, True)] s)))) =
           removeAll b (removeAll a (activeTargets s)) @ [b, a] \<and>
         lastActiveTarget (snd (observer_callback [(a, True), (b, True)] s)) = Some b \<and>
         (activeTargets s = [] \<longrightarrow>
            activeTargets (snd (observer_callback [(a, True)] s)) = [a] \<and>
            activeTargets (snd (observer_callback [(b, True)]
              (snd (observer_callback [(a, True)] s)))) = [a, b] \<and>
            activeTargets (snd (observer_callback [(a, True)]
              (snd (observer_callback [(b, True)]
                (snd (observer_callback [(a, True)] s)))))) = [b, a]) \<and>
         lastActiveTarget (snd (observer_callback [(x, True)] s)) = Some x \<and>
         lastActiveTarget (setTargetActive x s) = Some x \<and>
         activeTargets (setTargetActive x s) = removeAll x (activeTargets s) @ [x]"
proof -
  obtain obs where obs: "observer s = Some obs" using assms(1) by auto
  have one: "snd (observer_callback [(y, True)] r) =
      (apply_entry (y, True) r)\<lparr>notified := notified r @ [snapshot_of (apply_entry (y, True) r)]\<rparr>"
    if "observer r = Some obs" for y r
    using that by (simp add: deliver_one)
  have keep: "observer (snd (observer_callback es r)) = Some obs" if "observer r = Some obs" for es r
    using that by (simp add: observer_callback_observer)
  have two: "observer_callback [(a, True), (b, True)] s =
      observer_callback [(b, True)] (snd (observer_callback [(a, True)] s))"
    using obs by (simp add: deliver_one)
  have act: "activeTargets (snd (observer_callback [(y, True)] r)) = removeAll y (activeTargets r) @ [y]"
    if "observer r = Some obs" for y r
    by (simp add: one[OF that] apply_entry_active)
  have last: "lastActiveTarget (snd (observer_callback [(y, True)] r)) = Some y"
    if "observer r = Some obs" for y r
    by (simp add: one[OF that] apply_entry_last)
  let ?s1 = "snd (observer_callback [(a, True)] s)"
  let ?s2 = "snd (observer_callback [(b, True)] ?s1)"
  let ?s3 = "snd (observer_callback [(a, True)] ?s2)"
  have o1: "observer ?s1 = Some obs" by (rule keep[OF obs])
  have o2: "observer ?s2 = Some obs" by (rule keep[OF o1])
  have a1: "activeTargets ?s1 = removeAll a (activeTargets s) @ [a]" by (rule act[OF obs])
  have a2: "activeTargets ?s2 = removeAll b (removeAll a (activeTargets s)) @ [a, b]"
    using assms(2) by (simp add: act[OF o1] a1)
  have a3: "activeTargets ?s3 = removeAll b (removeAll a (activeTargets s)) @ [b, a]"
    using assms(2) by (simp add: act[OF o2] a2 removeAll_swap[of a b])
  have l2: "lastActiveTarget ?s2 = Some b" by (rule last[OF o1])
  have sta: "activeTargets (setTargetActive x s) = removeAll x (activeTargets s) @ [x]"
    by (simp add: setTargetActive_def set_add_delete)
  show ?thesis
    unfolding two
    using a1 a2 a3 l2 last[OF obs, of x] sta by (simp add: setTargetActive_def)
qed

theorem activation_order_witness:
  "observer (createScrollSpy True) \<noteq> None \<and> (1::nat) \<noteq> 2 \<and>
   activeTargets two_active = [1, 2] \<and>
   activeTargets (snd (observer_callback [(1, True)] two_active)) = [2, 1] \<and>
   lastActiveTarget (snd (observer_callback [(1, True)] two_active)) = Some 1"
proof -
  let ?s = "run [(page, OpSpy (Elem 1)), (page, OpSpy (Elem 2))] (createScrollSpy True)"
  have h1: "observer ?s \<noteq> None" by (simp add: run_defs)
  have h2: "(1::nat) \<noteq> 2" by simp
  have e: "activeTargets ?s = []" by (simp add: run_defs)
  have t: "two_active = snd (observer_callback [(1, True), (2, True)] ?s)"
    by (simp add: two_active_def)
  have l: "lastActiveTarget (snd (observer_callback [(1, True)] two_active)) = Some 1"
    by (simp add: two_active_def run_defs)
  show ?thesis
    using activation_order [OF h1 h2] e l unfolding t by (simp add: createScrollSpy_def)
qed

section \<open>Deactivation\<close>

text \<open>
  C6. A deactivation event for \<open>x\<close>, in any state: \<open>x\<close> is removed from the active set
  (which stays as it is when \<open>x\<close> was not in it); the last-active pointer, the
  registration set and the observer are unchanged, also when the pointer references
  \<open>x\<close>. \<open>setTargetUnactive\<close> itself changes the active set and nothing else.
\<close>

theorem deactivation_frame:
  "setTargetUnactive x s = s\<lparr>activeTargets := removeAll x (activeTargets s)\<rparr> \<and>
   activeTargets (snd (observer_callback [(x, False)] s)) = removeAll x (activeTargets s) \<and>
   x \<notin> set (activeTargets (snd (observer_callback [(x, False)] s))) \<and>
   lastActiveTarget (snd (observer_callback [(x, False)] s)) = lastActiveTarget s \<and>
   targets (snd (observer_callback [(x, False)] s)) = targets s \<and>
   observer (snd (observer_callback [(x, False)] s)) = observer s \<and>
   (x \<notin> set (activeTargets s) \<longrightarrow>
      activeTargets (snd (observer_callback [(x, False)] s)) = activeTargets s) \<and>
   (lastActiveTarget s = Some x \<longrightarrow>
      lastActiveTarget (snd (observer_callback [(x, False)] s)) = Some x)"
proof -
  have cb: "snd (observer_callback [(x, False)] s) =
      (case observer s of None \<Rightarrow> apply_entry (x, False) s
       | Some obs \<Rightarrow> (apply_entry (x, False) s)
           \<lparr>notified := notified s @ [snapshot_of (apply_entry (x, False) s)]\<rparr>)"
    unfolding observer_callback_Cons by (simp split: option.splits)
  have a: "activeTargets (snd (observer_callback [(x, False)] s)) = removeAll x (activeTargets s)"
    by (simp add: cb apply_entry_active split: option.splits)
  have l: "lastActiveTarget (snd (observer_callback [(x, False)] s)) = lastActiveTarget s"
    by (simp add: cb apply_entry_last split: option.splits)
  have t: "targets (snd (observer_callback [(x, False)] s)) = targets s"
    by (rule observer_callback_targets)
  have ob: "observer (snd (observer_callback [(x, False)] s)) = observer s"
    by (rule observer_callback_observer)
  have u: "setTargetUnactive x s = s\<lparr>activeTargets := removeAll x (activeTargets s)\<rparr>"
    by (simp add: setTargetUnactive_def set_delete_def)
  show ?thesis using a l t ob u by simp
qed

theorem deactivation_frame_witness:
  "activeTargets two_active = [1, 2] \<and> lastActiveTarget two_active = Some 2 \<and>
   activeTargets (snd (observer_callback [(2, False)] two_active)) = [1] \<and>
   lastActiveTarget (snd (observer_callback [(2, False)] two_active)) = Some 2 \<and>
   targets (snd (observer_callback [(2, False)] two_active)) = [1, 2]"
proof -
  have s: "activeTargets two_active = [1, 2]" "lastActiveTarget two_active = Some 2"
    "targets two_active = [1, 2]"
    by (simp_all add: two_active_def run_defs)
  show ?thesis
    using deactivation_frame [of 2 two_active] s by simp
qed

section \<open>Unregistering and the last-active pointer\<close>

text \<open>
  On a tracker with an observer, \<open>unspy(x)\<close> for an element \<open>x\<close> sets the last-active
  pointer to \<open>null\<close> when it referenced \<open>x\<close> and leaves it as it is otherwise, and
  removes \<open>x\<close> from the active set and from the registration set. For any argument,
  element or identifier, the same holds of all the elements the call works on.
\<close>

lemma unspy_cascade:
  assumes "observer s \<noteq> None"
  shows "lastActiveTarget (snd (unspy d (Elem x) s)) =
           (if lastActiveTarget s = Some x then None else lastActiveTarget s) \<and>
         targets (snd (unspy d (Elem x) s)) = removeAll x (targets s) \<and>
         activeTargets (snd (unspy d (Elem x) s)) = removeAll x (activeTargets s) \<and>
         x \<notin> set (targets (snd (unspy d (Elem x) s))) \<and>
         x \<notin> set (activeTargets (snd (unspy d (Elem x) s))) \<and>
         lastActiveTarget (snd (unspy d t s)) =
           (if lastActiveTarget s \<in> Some ` set (unspy_elems d t s) then None
            else lastActiveTarget s) \<and>
         set (targets (snd (unspy d t s))) = set (targets s) - set (unspy_elems d t s) \<and>
         set (activeTargets (snd (unspy d t s))) = set (activeTargets s) - set (unspy_elems d t s)"
proof -
  obtain obs where obs: "observer s = Some obs" using assms by auto
  have e: "unspy_elems d (Elem x) s = [x]" by (simp add: unspy_elems_def)
  then have ne: "unspy_elems d (Elem x) s \<noteq> []" by simp
  have rm: "filter (\<lambda>y. y \<noteq> x) xs = removeAll x xs" for xs :: "elem list"
    by (induction xs) auto
  have l: "lastActiveTarget (snd (unspy d (Elem x) s)) =
           (if lastActiveTarget s = Some x then None else lastActiveTarget s)"
    by (simp add: unspy_closed(5)[OF obs ne] e)
  have t: "targets (snd (unspy d (Elem x) s)) = removeAll x (targets s)"
    by (simp add: unspy_closed(4)[OF obs ne] e rm)
  have a: "activeTargets (snd (unspy d (Elem x) s)) = removeAll x (activeTargets s)"
    by (simp add: unspy_closed(3)[OF obs ne] e rm)
  have general: "lastActiveTarget (snd (unspy d t s)) =
           (if lastActiveTarget s \<in> Some ` set (unspy_elems d t s) then None
            else lastActiveTarget s) \<and>
         set (targets (snd (unspy d t s))) = set (targets s) - set (unspy_elems d t s) \<and>
         set (activeTargets (snd (unspy d t s))) = set (activeTargets s) - set (unspy_elems d t s)"
  proof (cases "unspy_elems d t s = []")
    case True
    then obtain i where "unspy d t s = (Inr (), warn (NothingToUnspy i) s)"
      using unspy_no_match by blast
    then show ?thesis using True by (simp add: warn_def)
  next
    case False
    show ?thesis
      by (auto simp: unspy_closed(3-5)[OF obs False])
  qed
  show ?thesis using l t a general by simp
qed

lemma unspy_cascade_example:
  "observer two_active \<noteq> None \<and> lastActiveTarget two_active = Some 2 \<and>
   lastActiveTarget (snd (unspy page (Elem 2) two_active)) = None \<and>
   lastActiveTarget (snd (unspy page (Elem 1) two_active)) = Some 2 \<and>
   targets (snd (unspy page (Elem 1) two_active)) = [2] \<and>
   activeTargets (snd (unspy page (Elem 1) two_active)) = [2]"
proof -
  have h: "observer two_active \<noteq> None" by (simp add: two_active_def run_defs)
  have s: "lastActiveTarget two_active = Some 2" "targets two_active = [1, 2]"
    "activeTargets two_active = [1, 2]"
    by (simp_all add: two_active_def run_defs)
  show ?thesis
    using unspy_cascade [OF h, of page 2 "Elem 2"] unspy_cascade [OF h, of page 1 "Elem 1"] h s
    by (simp add: unspy_elems_def)
qed

text \<open>
  C7. The claim is that after \<open>unspy(x)\<close> the element \<open>x\<close> is in neither the active set
  nor the registration set. On a tracker without an \<open>IntersectionObserver\<close>, \<open>spy\<close> has
  registered element \<open>0\<close> before it threw; \<open>unspy\<close> of that element throws at
  \<open>observer.unobserve\<close>, before \<open>targets.delete\<close>, and the element stays registered.
\<close>

theorem unspy_without_observer_keeps_target:
  "targets unobserved_target = [0] \<and>
   fst (unspy page (Elem 0) unobserved_target) = Inl ReferenceError \<and>
   targets (snd (unspy page (Elem 0) unobserved_target)) = [0] \<and>
   targets (snd (unspy page (Elem 0) unobserved_target)) \<noteq>
     removeAll 0 (targets unobserved_target)"
  by (simp add: unobserved_target_def run_defs)

section \<open>The active set and the registration set\<close>

text \<open>
  As long as every activation is delivered for a registered element, the active set
  stays within the registration set, whatever else happens, with or without an observer.
\<close>

lemma unspy_subset:
  assumes "set (activeTargets s) \<subseteq> set (targets s)"
  shows "set (activeTargets (snd (unspy d t s))) \<subseteq> set (targets (snd (unspy d t s)))"
proof (cases "unspy_elems d t s = []")
  case True
  then obtain i where "unspy d t s = (Inr (), warn (NothingToUnspy i) s)"
    using unspy_no_match by blast
  then show ?thesis using assms by (simp add: warn_def)
next
  case False
  show ?thesis
  proof (cases "observer s")
    case None
    then show ?thesis using unspy_fallback[OF None False, of] assms by simp
  next
    case (Some obs)
    show ?thesis using assms by (auto simp: unspy_closed(3,4)[OF Some False])
  qed
qed

lemma unspyAll_subset:
  "set (activeTargets s) \<subseteq> set (targets s) \<Longrightarrow>
   set (activeTargets (snd (unspyAll s))) \<subseteq> set (targets (snd (unspyAll s)))"
  by (cases "observer s") (simp_all add: unspyAll_def reportUpdates_def)

lemma spy_subset:
  "set (activeTargets s) \<subseteq> set (targets s) \<Longrightarrow>
   set (activeTargets (snd (spy d t s))) \<subseteq> set (targets (snd (spy d t s)))"
  using spy_frame(3)[of s d t] by (simp add: spy_frame(1))

lemma deliver_subset:
  assumes "set (activeTargets s) \<subseteq> set (targets s)"
    and "list_all (\<lambda>entry. snd entry \<longrightarrow> fst entry \<in> set (targets s)) entries"
  shows "set (activeTargets (snd (observer_callback entries s)))
           \<subseteq> set (targets (snd (observer_callback entries s)))"
proof -
  have "{x. (x, True) \<in> set entries} \<subseteq> set (targets s)"
    using assms(2) by (auto simp: list_all_iff)
  then show ?thesis
    using observer_callback_active_subset[of entries s] assms(1)
    by (simp add: observer_callback_targets) blast
qed

lemma subset_invariant_registered_events:
  "set (activeTargets s) \<subseteq> set (targets s) \<Longrightarrow> registered_events ops s \<Longrightarrow>
   set (activeTargets (run ops s)) \<subseteq> set (targets (run ops s))"
proof (induction ops arbitrary: s)
  case Nil
  then show ?case by simp
next
  case (Cons o1 ops)
  obtain d a where o1: "o1 = (d, a)" by (cases o1)
  have "set (activeTargets (step o1 s)) \<subseteq> set (targets (step o1 s))"
    using Cons.prems unfolding o1
    by (cases a) (simp_all add: spy_subset unspy_subset unspyAll_subset deliver_subset)
  then show ?case using Cons.prems(2) by (simp add: Cons.IH)
qed

lemma created_subset:
  "set (activeTargets (createScrollSpy b)) \<subseteq> set (targets (createScrollSpy b))"
  by (simp add: createScrollSpy_def)

text \<open>
  C2. The claim is that the active set stays within the registration set also when an
  activation is delivered for an element that is not registered. The callback does not
  look at the registration set: element \<open>0\<close> is registered and unregistered, an entry
  queued for it in between is delivered, and \<open>0\<close> is active, and the last-active element,
  without being registered.
\<close>

theorem stale_activation_breaks_subset:
  "targets stale_entry_state = [] \<and> activeTargets stale_entry_state = [0] \<and>
   lastActiveTarget stale_entry_state = Some 0 \<and>
   \<not> set (activeTargets stale_entry_state) \<subseteq> set (targets stale_entry_state)"
  by (simp add: stale_entry_state_def one_target_def run_defs)

section \<open>isActive\<close>

text \<open>
  \<open>isActive\<close> looks at the active set first. While the active set is within the
  registration set, its three answers are the three cases of the claim.
\<close>

lemma isActive_cases:
  "isActive s x =
     (if x \<in> set (activeTargets s) then Some True
      else if x \<in> set (targets s) then Some False else None)"
  by (simp add: isActive_def)

lemma isActive_three_valued:
  assumes "set (activeTargets s) \<subseteq> set (targets s)"
  shows "(x \<in> set (activeTargets s) \<longrightarrow> isActive s x = Some True) \<and>
         (x \<in> set (targets s) \<and> x \<notin> set (activeTargets s) \<longrightarrow> isActive s x = Some False) \<and>
         (x \<notin> set (targets s) \<longrightarrow> isActive s x = None)"
  using assms by (auto simp: isActive_def)

text \<open>
  An element that was never registered, and for which the observer therefore never
  delivered an activation, is unknown to \<open>isActive\<close>.
\<close>

lemma isActive_never_registered:
  assumes "list_all (leaves_alone x) ops"
  shows "isActive (run ops (createScrollSpy True)) x = None"
proof -
  have "forgotten x (createScrollSpy True)"
    by (simp add: forgotten_def createScrollSpy_def)
  then have "forgotten x (run ops (createScrollSpy True))"
    using assms by (rule run_preserves_forgotten)
  then show ?thesis by (simp add: forgotten_def isActive_def)
qed

text \<open>
  C5. The claim is that \<open>isActive\<close> answers \<open>null\<close> for every element that is not
  registered. After the stale entry of C2, element \<open>0\<close> is not registered and
  \<open>isActive\<close> answers \<open>true\<close>.
\<close>

theorem isActive_stale_entry:
  "0 \<notin> set (targets stale_entry_state) \<and> isActive stale_entry_state 0 = Some True"
  by (simp add: stale_entry_state_def one_target_def run_defs)

section \<open>The label of a section\<close>

lemma lowercase_char:
  "c \<in> set ''abcdefghijklmnopqrstuvwxyz'' \<Longrightarrow> c \<noteq> CHR ''-'' \<and> \<not> line_terminator c"
  by (auto simp: line_terminator_def)

lemma replace_hyphen_other: "c \<noteq> CHR ''-'' \<Longrightarrow> replace_hyphen (c # cs) = c # replace_hyphen cs"
  by (cases cs) simp_all

lemma replace_hyphen_word:
  "list_all (\<lambda>c. c \<noteq> CHR ''-'') w \<Longrightarrow> replace_hyphen (w @ rest) = w @ replace_hyphen rest"
  by (induction w) (simp_all add: replace_hyphen_other)

lemma token_chars:
  "lowercase_token w \<Longrightarrow> list_all (\<lambda>c. c \<noteq> CHR ''-'') w"
  unfolding lowercase_token_def list_all_iff using lowercase_char by blast

lemma token_head:
  "lowercase_token w \<Longrightarrow> \<exists>c cs. w = c # cs \<and> \<not> line_terminator c \<and> c \<noteq> CHR ''-''
     \<and> list_all (\<lambda>c. c \<noteq> CHR ''-'') cs"
  using token_chars[of w] lowercase_char
  by (cases w) (auto simp: lowercase_token_def)

lemma join_with_Cons: "join_with sep (w # ws) = w @ concat (map (\<lambda>v. sep @ v) ws)"
  by (induction ws arbitrary: w) simp_all

lemma replace_hyphen_tail:
  "list_all lowercase_token ws \<Longrightarrow>
   replace_hyphen (concat (map (\<lambda>v. ''-'' @ v) ws)) = concat (map (\<lambda>v. '' '' @ capitalize v) ws)"
proof (induction ws)
  case Nil
  then show ?case by simp
next
  case (Cons w ws)
  then obtain c cs where w: "w = c # cs" "\<not> line_terminator c"
    "list_all (\<lambda>c. c \<noteq> CHR ''-'') cs"
    using token_head[of w] by auto
  have "replace_hyphen (CHR ''-'' # c # (cs @ concat (map (\<lambda>v. ''-'' @ v) ws))) =
        CHR '' '' # toUpperCase c # replace_hyphen (cs @ concat (map (\<lambda>v. ''-'' @ v) ws))"
    using w(2) by simp
  also have "replace_hyphen (cs @ concat (map (\<lambda>v. ''-'' @ v) ws)) =
      cs @ replace_hyphen (concat (map (\<lambda>v. ''-'' @ v) ws))"
    by (rule replace_hyphen_word[OF w(3)])
  finally show ?case using Cons by (simp add: w(1) capitalize_def)
qed

lemma kebab_to_label_tokens:
  assumes "ws \<noteq> []" and "list_all lowercase_token ws"
  shows "kebab_to_label (join_with ''-'' ws) = spec_label ws"
proof -
  obtain w rest where ws: "ws = w # rest" using assms(1) by (cases ws) auto
  obtain c cs where w: "w = c # cs" "\<not> line_terminator c" "c \<noteq> CHR ''-''"
    "list_all (\<lambda>c. c \<noteq> CHR ''-'') cs"
    using token_head[of w] assms(2) ws by auto
  have wl: "list_all (\<lambda>c. c \<noteq> CHR ''-'') w" using w by simp
  have "replace_hyphen (join_with ''-'' ws) = w @ concat (map (\<lambda>v. '' '' @ capitalize v) rest)"
    using assms(2) unfolding ws join_with_Cons
    by (simp add: replace_hyphen_word[OF wl] replace_hyphen_tail)
  then have "kebab_to_label (join_with ''-'' ws) =
      capitalize w @ concat (map (\<lambda>v. '' '' @ capitalize v) rest)"
    using w(2) by (simp add: kebab_to_label_def w(1) capitalize_def)
  also have "\<dots> = spec_label ws"
    by (simp add: spec_label_def ws join_with_Cons comp_def)
  finally show ?thesis .
qed

lemma section_spy_accepted:
  assumes "resolve d t = Some e" and "elem_id d e \<noteq> []" and "e \<notin> set (targets s)"
    and "observer s \<noteq> None"
  shows "section_spy d t label s =
     (Inr (Destroy e),
      setAttribute d e ''data-section-label''
        (case label of None \<Rightarrow> kebab_to_label (elem_id d e) | Some l \<Rightarrow> l),
      snd (spy d (Elem e) s))"
proof -
  obtain obs where obs: "observer s = Some obs" using assms(4) by auto
  have r: "resolve d (Elem e) = Some e" by (simp add: resolve_def)
  show ?thesis
    using assms(1,2) by (simp add: section_spy_def Let_def spy_accepted[OF r assms(3) obs])
qed

text \<open>
  C9. For an element whose id is a sequence of one or more non-empty tokens of
  lowercase letters joined by hyphens, registered through the section tracker without a
  label (the element is not registered yet and the tracker has an observer): the label
  that \<open>sectionSpy.spy\<close> computes is the tokens, each capitalised, joined with spaces, and
  it is written to the attribute \<open>data-section-label\<close> of the element. For
  \<open>intro-section\<close> the label is \<open>Intro Section\<close>.
\<close>

theorem section_label_derived:
  assumes "ws \<noteq> []" and "list_all lowercase_token ws"
    and "resolve d t = Some e" and "elem_id d e = join_with ''-'' ws"
    and "e \<notin> set (targets s)" and "observer s \<noteq> None"
  shows "kebab_to_label (join_with ''-'' ws) = spec_label ws \<and>
         fst (section_spy d t None s) = Inr (Destroy e) \<and>
         fst (snd (section_spy d t None s)) =
           setAttribute d e ''data-section-label'' (spec_label ws) \<and>
         attrs (fst (snd (section_spy d t None s))) e ''data-section-label'' =
           Some (spec_label ws) \<and>
         kebab_to_label ''intro-section'' = ''Intro Section''"
proof -
  have l: "kebab_to_label (join_with ''-'' ws) = spec_label ws"
    using assms(1,2) by (rule kebab_to_label_tokens)
  have "join_with ''-'' ws \<noteq> []"
    using assms(1,2) by (cases ws) (auto simp: join_with_Cons lowercase_token_def)
  then have i: "elem_id d e \<noteq> []" using assms(4) by simp
  have s: "section_spy d t None s =
     (Inr (Destroy e), setAttribute d e ''data-section-label'' (spec_label ws),
      snd (spy d (Elem e) s))"
    using section_spy_accepted[OF assms(3) i assms(5,6), of None] l assms(4) by simp
  have k: "kebab_to_label ''intro-section'' = ''Intro Section''"
    by (simp add: kebab_to_label_def toUpperCase_def line_terminator_def)
  show ?thesis using l s k by (simp add: setAttribute_def)
qed

theorem section_label_derived_witness:
  "[''intro'', ''section''] \<noteq> [] \<and> list_all lowercase_token [''intro'', ''section''] \<and>
   resolve page (Elem 0) = Some 0 \<and> elem_id page 0 = join_with ''-'' [''intro'', ''section''] \<and>
   0 \<notin> set (targets (createScrollSpy True)) \<and> observer (createScrollSpy True) \<noteq> None \<and>
   attrs (fst (snd (section_spy page (Elem 0) None (createScrollSpy True)))) 0
     ''data-section-label'' = Some ''Intro Section''"
proof -
  have h1: "[''intro'', ''section''] \<noteq> []" by simp
  have h2: "list_all lowercase_token [''intro'', ''section'']"
    by (simp add: lowercase_token_def)
  have h3: "resolve page (Elem 0) = Some 0" by (simp add: resolve_def)
  have h4: "elem_id page 0 = join_with ''-'' [''intro'', ''section'']" by (simp add: page_def)
  have h5: "0 \<notin> set (targets (createScrollSpy True))" by (simp add: createScrollSpy_def)
  have h6: "observer (createScrollSpy True) \<noteq> None" by (simp add: createScrollSpy_def)
  have v: "spec_label [''intro'', ''section''] = ''Intro Section''"
    by (simp add: spec_label_def capitalize_def toUpperCase_def)
  show ?thesis
    using section_label_derived [OF h1 h2 h3 h4 h5 h6] h1 h2 h3 h4 h5 h6 v
    by (simp add: setAttribute_def)
qed

section \<open>When the section tracker writes the label\<close>

lemma section_spy_dom:
  "fst (snd (section_spy d t label s)) =
     (case fst (section_spy d t label s) of
        Inr (Destroy e) \<Rightarrow>
          setAttribute d e ''data-section-label''
            (case label of None \<Rightarrow> kebab_to_label (elem_id d e) | Some l \<Rightarrow> l)
      | _ \<Rightarrow> d)"
proof (cases "resolve d t")
  case None
  then show ?thesis by (simp add: section_spy_def)
next
  case (Some e)
  have same: "x = e" if "fst (spy d (Elem e) s) = Inr (Destroy x)" for x
    using that
    by (auto simp: spy_def resolve_def Let_def reportUpdates_def
        split: if_splits option.splits)
  show ?thesis
  proof (cases "elem_id d e = []")
    case True
    then show ?thesis using Some by (simp add: section_spy_def)
  next
    case False
    obtain r s1 where sp: "spy d (Elem e) s = (r, s1)" by (cases "spy d (Elem e) s")
    show ?thesis
    proof (cases r)
      case (Inl err)
      then show ?thesis using Some False sp by (simp add: section_spy_def)
    next
      case (Inr h)
      show ?thesis
      proof (cases h)
        case NoHandle
        then show ?thesis using Some False sp Inr by (simp add: section_spy_def)
      next
        case (Destroy x)
        then have "x = e" using same[of x] sp Inr by simp
        then show ?thesis using Some False sp Inr Destroy by (simp add: section_spy_def)
      qed
    qed
  qed
qed

text \<open>
  C10. \<open>sectionSpy.spy\<close> changes the document only when it returns a handle, which is
  the handle that the wrapped tracker's \<open>spy\<close> returned for the element; then the only
  change is the attribute \<open>data-section-label\<close> of that element. When the target is not
  found, when the element has no id (the wrapped tracker is not called), and when the
  element is already registered, no handle is returned and the document is unchanged.
\<close>

theorem section_label_only_on_success:
  "(fst (section_spy d t label s) = Inr (Destroy e) \<longrightarrow>
      fst (spy d (Elem e) s) = Inr (Destroy e) \<and> resolve d t = Some e \<and>
      fst (snd (section_spy d t label s)) =
        setAttribute d e ''data-section-label''
          (case label of None \<Rightarrow> kebab_to_label (elem_id d e) | Some l \<Rightarrow> l)) \<and>
   ((\<forall>x. fst (section_spy d t label s) \<noteq> Inr (Destroy x)) \<longrightarrow>
      fst (snd (section_spy d t label s)) = d) \<and>
   (resolve d t = None \<longrightarrow>
      fst (section_spy d t label s) = Inr NoHandle \<and> fst (snd (section_spy d t label s)) = d) \<and>
   (resolve d t = Some e \<and> elem_id d e = [] \<longrightarrow>
      fst (section_spy d t label s) = Inr NoHandle \<and> fst (snd (section_spy d t label s)) = d \<and>
      targets (snd (snd (section_spy d t label s))) = targets s) \<and>
   (resolve d t = Some e \<and> e \<in> set (targets s) \<longrightarrow>
      fst (section_spy d t label s) = Inr NoHandle \<and> fst (snd (section_spy d t label s)) = d)"
proof -
  have a: "fst (spy d (Elem e) s) = Inr (Destroy e) \<and> resolve d t = Some e"
    if "fst (section_spy d t label s) = Inr (Destroy e)"
    using that
    by (auto simp: section_spy_def Let_def spy_def resolve_def reportUpdates_def
        split: option.splits if_splits)
  have b: "fst (snd (section_spy d t label s)) =
        setAttribute d e ''data-section-label''
          (case label of None \<Rightarrow> kebab_to_label (elem_id d e) | Some l \<Rightarrow> l)"
    if "fst (section_spy d t label s) = Inr (Destroy e)"
    using section_spy_dom[of d t label s] that by simp
  have c: "fst (snd (section_spy d t label s)) = d"
    if "\<forall>x. fst (section_spy d t label s) \<noteq> Inr (Destroy x)"
    using section_spy_dom[of d t label s] that
    by (auto split: sum.splits action_return.splits)
  have n: "fst (section_spy d t label s) = Inr NoHandle \<and> fst (snd (section_spy d t label s)) = d"
    if "resolve d t = None"
    using that by (simp add: section_spy_def)
  have i: "fst (section_spy d t label s) = Inr NoHandle \<and> fst (snd (section_spy d t label s)) = d \<and>
      targets (snd (snd (section_spy d t label s))) = targets s"
    if "resolve d t = Some e" "elem_id d e = []"
    using that by (simp add: section_spy_def warn_def)
  have r: "fst (section_spy d t label s) = Inr NoHandle \<and> fst (snd (section_spy d t label s)) = d"
    if "resolve d t = Some e" "e \<in> set (targets s)"
    using that by (simp add: section_spy_def Let_def spy_def resolve_def)
  show ?thesis using a b c n i r by blast
qed

theorem section_label_only_on_success_witness:
  "resolve page (Id ''contact'') = None \<and>
   fst (snd (section_spy page (Id ''contact'') None one_target)) = page \<and>
   resolve page (Elem 3) = Some 3 \<and> elem_id page 3 = [] \<and>
   fst (snd (section_spy page (Elem 3) None one_target)) = page \<and>
   resolve page (Elem 0) = Some 0 \<and> 0 \<in> set (targets one_target) \<and>
   fst (snd (section_spy page (Elem 0) (Some ''Intro'') one_target)) = page \<and>
   fst (section_spy page (Id ''about'') (Some ''About us'') one_target) = Inr (Destroy 1) \<and>
   fst (snd (section_spy page (Id ''about'') (Some ''About us'') one_target)) =
     setAttribute page 1 ''data-section-label'' ''About us''"
proof -
  have h1: "resolve page (Id ''contact'') = None" by (simp add: run_defs)
  have h2: "resolve page (Elem 3) = Some 3 \<and> elem_id page 3 = []" by (simp add: run_defs)
  have h3: "resolve page (Elem 0) = Some 0 \<and> 0 \<in> set (targets one_target)"
    by (simp add: one_target_def run_defs)
  have h4: "fst (section_spy page (Id ''about'') (Some ''About us'') one_target) = Inr (Destroy 1)"
    by (simp add: section_spy_def one_target_def run_defs)
  show ?thesis
    using section_label_only_on_success [of page "Id ''contact''" None one_target 0]
      section_label_only_on_success [of page "Elem 3" None one_target 3]
      section_label_only_on_success [of page "Elem 0" "Some ''Intro''" one_target 0]
      section_label_only_on_success [of page "Id ''about''" "Some ''About us''" one_target 1]
      h1 h2 h3 h4
    by simp
qed

end
